theory Spec2Isabelle
  imports Main "HOL-Library.Finite_Map" "HOL-Library.FSet" "HOL-Library.List_Lexorder" "HOL-Library.Char_ord"
begin

section \<open>Data model\<close>

text \<open>
  A Go \<^verbatim>\<open>string\<close> is a sequence of bytes, and so is an Isabelle \<^typ>\<open>string\<close>
  (a \<^typ>\<open>char\<close> is one byte).  The order of \<^verbatim>\<open>sort.Strings\<close> is the bytewise
  lexicographic order, which is the order of \<^typ>\<open>char list\<close> here.

  A \<^verbatim>\<open>[]byte\<close> is either \<^verbatim>\<open>nil\<close> or a slice with contents; reading a missing key
  of \<^verbatim>\<open>map[string][]byte\<close> yields \<^verbatim>\<open>nil\<close>.
\<close>

datatype byte_slice = nil | Slice string

fun len :: "byte_slice \<Rightarrow> nat" where
  "len nil = 0"
| "len (Slice bs) = length bs"

fun bytes_of :: "byte_slice \<Rightarrow> string" where
  "bytes_of nil = []"
| "bytes_of (Slice bs) = bs"

text \<open>
  A log entry is a \<^verbatim>\<open>map[string]interface{}\<close>.  Of an \<^verbatim>\<open>interface{}\<close> value the code
  only ever asks whether it is a string (the type assertions of \<^verbatim>\<open>RecoverFromWAL\<close>).
\<close>

datatype json = JString string | JOther

type_synonym log_entry = "(string, json) fmap"

datatype error =
  OpenError | CreateError | WriteError | CloseError | TruncateError | DecodeError | Panic

text \<open>
  The struct \<^verbatim>\<open>KeyValueStore\<close>, together with the part of the file system the store
  works on.  The field \<^verbatim>\<open>wal *os.File\<close> is the name of the file the handle was opened on
  and whether the handle has been closed.  \<open>logs\<close> holds the log files by name, each as
  the sequence of entries written to it.  \<open>sstables\<close> is the listing of the files
  \<^verbatim>\<open>sstable_*.sst\<close> as \<^verbatim>\<open>SearchSSTFiles\<close> orders it: newest modification time first,
  each file as its bytes.  A table file is named after the clock (\<^verbatim>\<open>time.Now().UnixNano()\<close>);
  the clock is taken to be strictly increasing, so that a new table file has a fresh name
  and the newest modification time: it enters the listing at the front.  Two tables with
  the same modification time are outside this model: \<^verbatim>\<open>sort.Slice\<close> is not stable, and on a
  tie it can leave the older table in front.  Only the order in which two tables are
  searched depends on this; what a table holds, and whether a key is found at all, does not
  (\<open>search_files_found_in_any_order\<close>).
\<close>

record KeyValueStore =
  data :: "(string, byte_slice) fmap"
  wal_name :: string
  wal_closed :: bool
  smallestKeyLength :: int
  largestKeyLength :: int
  DeletedKeys :: "(string, bool) fmap"
  logs :: "(string, log_entry list) fmap"
  sstables :: "string list"

text \<open>
  The outcome of the fallible system calls during one call of a method, chosen by the
  environment: the write to the log (\<open>wal_write_ok\<close>); \<^verbatim>\<open>os.Create\<close> of the table file
  (\<open>create_ok\<close>) and the writes to it (\<open>write_limit = Some n\<close>: the first \<open>n\<close> writes
  succeed and the next one fails, writing nothing; \<open>None\<close>: no write fails); the three
  steps of \<^verbatim>\<open>ClearWAL\<close> (\<open>close_ok\<close>, \<open>truncate_ok\<close>, \<open>reopen_ok\<close>); \<^verbatim>\<open>os.Open\<close> of the
  table files that are searched (\<open>open_ok\<close>).
\<close>

record io =
  wal_write_ok :: bool
  create_ok :: bool
  write_limit :: "nat option"
  close_ok :: bool
  truncate_ok :: bool
  reopen_ok :: bool
  open_ok :: bool

text \<open>\<^verbatim>\<open>kv.DeletedKeys[key]\<close>: a missing key reads as \<^verbatim>\<open>false\<close>.\<close>

definition deleted :: "KeyValueStore \<Rightarrow> string \<Rightarrow> bool" where
  "deleted kv key = (fmlookup (DeletedKeys kv) key = Some True)"

text \<open>\<^verbatim>\<open>value, ok := kv.data[key]\<close>\<close>

definition data_lookup :: "KeyValueStore \<Rightarrow> string \<Rightarrow> byte_slice \<times> bool" where
  "data_lookup kv key = (case fmlookup (data kv) key of None \<Rightarrow> (nil, False) | Some v \<Rightarrow> (v, True))"

section \<open>Reading a table file\<close>

text \<open>
  \<^verbatim>\<open>file.Read(buf)\<close> on a regular file: an empty buffer reads nothing and succeeds; at
  the end of the file the read fails with \<^verbatim>\<open>io.EOF\<close>; otherwise it fills as much of the
  buffer as the file has left and succeeds, the rest of the (zeroed) buffer staying zero.
  One call reads at most \<open>maxRW\<close> bytes (1 GiB, the limit of Go's \<^verbatim>\<open>internal/poll\<close>).
\<close>

definition maxRW :: nat where
  "maxRW = 2 ^ 30"

definition file_Read :: "nat \<Rightarrow> string \<Rightarrow> (string \<times> string) option" where
  "file_Read n bs =
     (if n = 0 then Some ([], bs)
      else if bs = [] then None
      else let got = take (min n maxRW) bs
           in Some (got @ replicate (n - length got) (CHR 0x00), drop (min n maxRW) bs))"

text \<open>\<^verbatim>\<open>binary.Read\<close> uses \<^verbatim>\<open>io.ReadFull\<close>: it fails unless all bytes are there.\<close>

definition read_full :: "nat \<Rightarrow> string \<Rightarrow> (string \<times> string) option" where
  "read_full n bs = (if length bs < n then None else Some (take n bs, drop n bs))"

fun le_nat :: "string \<Rightarrow> nat" where
  "le_nat [] = 0"
| "le_nat (c # cs) = of_char c + 256 * le_nat cs"

definition read_uint32 :: "string \<Rightarrow> (nat \<times> string) option" where
  "read_uint32 bs = (case read_full 4 bs of None \<Rightarrow> None | Some (b, rest) \<Rightarrow> Some (le_nat b, rest))"

definition read_uint16 :: "string \<Rightarrow> (nat \<times> string) option" where
  "read_uint16 bs = (case read_full 2 bs of None \<Rightarrow> None | Some (b, rest) \<Rightarrow> Some (le_nat b, rest))"

text \<open>
  The five reads of one pass of the loop of \<^verbatim>\<open>SearchSSTFile\<close>; any failed read ends
  the search of the file.
\<close>

definition read_entry :: "string \<Rightarrow> ((nat \<times> string \<times> string) \<times> string) option" where
  "read_entry bs =
     (case read_uint16 bs of None \<Rightarrow> None | Some (operationMarker, bs1) \<Rightarrow>
     (case read_uint32 bs1 of None \<Rightarrow> None | Some (keyLength, bs2) \<Rightarrow>
     (case read_uint32 bs2 of None \<Rightarrow> None | Some (valueLength, bs3) \<Rightarrow>
     (case file_Read keyLength bs3 of None \<Rightarrow> None | Some (keyBytes, bs4) \<Rightarrow>
     (case file_Read valueLength bs4 of None \<Rightarrow> None | Some (valueBytes, bs5) \<Rightarrow>
        Some ((operationMarker, keyBytes, valueBytes), bs5))))))"

text \<open>The loop over the entries, by the number of entries left.\<close>

fun scan_entries :: "string \<Rightarrow> nat \<Rightarrow> string \<Rightarrow> byte_slice \<times> bool" where
  "scan_entries key 0 bs = (nil, False)"
| "scan_entries key (Suc n) bs =
     (case read_entry bs of
        None \<Rightarrow> (nil, False)
      | Some ((operationMarker, keyBytes, valueBytes), rest) \<Rightarrow>
          if keyBytes = key then
            (if operationMarker = 1 then (Slice ''DELETED'', True) else (Slice valueBytes, True))
          else scan_entries key n rest)"

definition SearchSSTFile :: "io \<Rightarrow> string \<Rightarrow> string \<Rightarrow> byte_slice \<times> bool" where
  "SearchSSTFile env key file =
     (if \<not> open_ok env then (nil, False)
      else (case file_Read 4 file of None \<Rightarrow> (nil, False) | Some (magicNumber, bs1) \<Rightarrow>
        if magicNumber \<noteq> ''SSTB'' then (nil, False)
        else (case read_uint32 bs1 of None \<Rightarrow> (nil, False) | Some (entryCount, bs2) \<Rightarrow>
             (case read_uint32 bs2 of None \<Rightarrow> (nil, False) | Some (smallest, bs3) \<Rightarrow>
             (case read_uint32 bs3 of None \<Rightarrow> (nil, False) | Some (largest, bs4) \<Rightarrow>
                scan_entries key entryCount bs4)))))"

text \<open>The loop of \<^verbatim>\<open>SearchSSTFiles\<close> over the listing, newest file first.\<close>

fun search_files :: "io \<Rightarrow> string \<Rightarrow> string list \<Rightarrow> byte_slice \<times> bool" where
  "search_files env key [] = (nil, False)"
| "search_files env key (sstFile # files) =
     (case SearchSSTFile env key sstFile of
        (value, True) \<Rightarrow> (value, True)
      | (value, False) \<Rightarrow> search_files env key files)"

definition SearchSSTFiles :: "io \<Rightarrow> string \<Rightarrow> KeyValueStore \<Rightarrow> byte_slice \<times> bool" where
  "SearchSSTFiles env key kv = search_files env key (sstables kv)"

definition Get :: "io \<Rightarrow> string \<Rightarrow> KeyValueStore \<Rightarrow> byte_slice \<times> bool" where
  "Get env key kv =
     (case data_lookup kv key of (value, ok) \<Rightarrow>
        if deleted kv key then (nil, False)
        else if \<not> ok then SearchSSTFiles env key kv
        else (value, ok))"

section \<open>The write-ahead log\<close>

definition wal_contents :: "KeyValueStore \<Rightarrow> log_entry list" where
  "wal_contents kv = (case fmlookup (logs kv) (wal_name kv) of None \<Rightarrow> [] | Some es \<Rightarrow> es)"

text \<open>
  \<^verbatim>\<open>writeToWAL\<close>: a failed write (a closed handle among the causes) is logged and
  otherwise ignored; it is taken to leave the file as it was.  A failed \<^verbatim>\<open>Sync\<close> is
  logged too and changes nothing here.
\<close>

definition writeToWAL :: "io \<Rightarrow> log_entry \<Rightarrow> KeyValueStore \<Rightarrow> KeyValueStore" where
  "writeToWAL env entry kv =
     (if wal_closed kv \<or> \<not> wal_write_ok env then kv
      else kv\<lparr>logs := fmupd (wal_name kv) (wal_contents kv @ [entry]) (logs kv)\<rparr>)"

definition logEntry :: "string \<Rightarrow> string \<Rightarrow> byte_slice \<Rightarrow> log_entry" where
  "logEntry operation key value =
     fmap_of_list [(''operation'', JString operation), (''key'', JString key),
                   (''value'', JString (bytes_of value))]"

definition ClearWAL :: "io \<Rightarrow> KeyValueStore \<Rightarrow> error option \<times> KeyValueStore" where
  "ClearWAL env kv =
     (if wal_closed kv \<or> \<not> close_ok env then (Some CloseError, kv\<lparr>wal_closed := True\<rparr>)
      else let kv1 = kv\<lparr>wal_closed := True\<rparr> in
        if \<not> truncate_ok env \<or> ''wal.log'' |\<notin>| fmdom (logs kv1) then (Some TruncateError, kv1)
        else let kv2 = kv1\<lparr>logs := fmupd ''wal.log'' [] (logs kv1)\<rparr> in
          if \<not> reopen_ok env then (Some OpenError, kv2)
          else (None, kv2\<lparr>wal_name := ''wal.log'', wal_closed := False\<rparr>))"

section \<open>Writing a table file\<close>

definition uint32 :: "int \<Rightarrow> nat" where
  "uint32 n = nat (n mod 2 ^ 32)"

text \<open>The byte \<open>n mod 256\<close>, bit by bit, and the little-endian layout of \<^verbatim>\<open>binary.Write\<close>.\<close>

definition byte :: "nat \<Rightarrow> char" where
  "byte n = Char (odd n) (odd (n div 2)) (odd (n div 4)) (odd (n div 8))
                 (odd (n div 16)) (odd (n div 32)) (odd (n div 64)) (odd (n div 128))"

definition le16 :: "nat \<Rightarrow> string" where
  "le16 n = [byte n, byte (n div 256)]"

definition le32 :: "nat \<Rightarrow> string" where
  "le32 n = [byte n, byte (n div 256), byte (n div 65536), byte (n div 16777216)]"

text \<open>
  The keys of both maps, appended and sorted.  The order in which \<^verbatim>\<open>range\<close> visits a
  map does not survive the sort.
\<close>

definition flush_keys :: "KeyValueStore \<Rightarrow> string list" where
  "flush_keys kv =
     sort (sorted_list_of_fset (fmdom (data kv)) @ sorted_list_of_fset (fmdom (DeletedKeys kv)))"

text \<open>The five writes of one entry.\<close>

definition entry_writes :: "KeyValueStore \<Rightarrow> string \<Rightarrow> string list" where
  "entry_writes kv key =
     (let value = fst (data_lookup kv key);
          operationMarker = (if deleted kv key then 1 else 0 :: nat)
      in [le16 operationMarker, le32 (uint32 (int (length key))), le32 (uint32 (int (len value))),
          key, bytes_of value])"

definition sst_writes :: "KeyValueStore \<Rightarrow> string list" where
  "sst_writes kv =
     (let keys = flush_keys kv
      in [''SSTB'', le32 (uint32 (int (length keys))), le32 (uint32 (smallestKeyLength kv)),
          le32 (uint32 (largestKeyLength kv))] @ concat (map (entry_writes kv) keys))"

definition WriteSSTable :: "io \<Rightarrow> KeyValueStore \<Rightarrow> error option \<times> KeyValueStore" where
  "WriteSSTable env kv =
     (if \<not> create_ok env then (Some CreateError, kv)
      else let writes = sst_writes kv in
        case write_limit env of
          None \<Rightarrow> (None, kv\<lparr>sstables := concat writes # sstables kv\<rparr>)
        | Some n \<Rightarrow>
            if n < length writes
            then (Some WriteError, kv\<lparr>sstables := concat (take n writes) # sstables kv\<rparr>)
            else (None, kv\<lparr>sstables := concat writes # sstables kv\<rparr>))"

section \<open>The operations of the store\<close>

definition NewKeyValueStore ::
  "bool \<Rightarrow> string \<Rightarrow> (string, log_entry list) fmap \<Rightarrow> string list \<Rightarrow> error + KeyValueStore" where
  "NewKeyValueStore opened walFilePath files tables =
     (if \<not> opened then Inl OpenError
      else Inr \<lparr>data = fmempty, wal_name = walFilePath, wal_closed = False,
                smallestKeyLength = 0, largestKeyLength = 0, DeletedKeys = fmempty,
                logs = (if walFilePath |\<in>| fmdom files then files else fmupd walFilePath [] files),
                sstables = tables\<rparr>)"

text \<open>Lines 74 to 93 of \<^verbatim>\<open>Set\<close>: key lengths, log, memory.\<close>

definition store_entry :: "io \<Rightarrow> string \<Rightarrow> byte_slice \<Rightarrow> KeyValueStore \<Rightarrow> KeyValueStore" where
  "store_entry env key value kv =
     (let keyLength = int (length key);
          kv1 = (if smallestKeyLength kv = 0 \<or> keyLength < smallestKeyLength kv
                 then kv\<lparr>smallestKeyLength := keyLength\<rparr> else kv);
          kv2 = (if keyLength > largestKeyLength kv1
                 then kv1\<lparr>largestKeyLength := keyLength\<rparr> else kv1);
          kv3 = writeToWAL env (logEntry ''set'' key value) kv2
      in kv3\<lparr>data := fmupd key value (data kv3)\<rparr>)"

definition Set :: "io \<Rightarrow> string \<Rightarrow> byte_slice \<Rightarrow> KeyValueStore \<Rightarrow> KeyValueStore" where
  "Set env key value kv =
     (if deleted kv key then kv\<lparr>DeletedKeys := fmupd key False (DeletedKeys kv)\<rparr>
      else let kv1 = store_entry env key value kv in
        if fcard (fmdom (data kv1)) \<ge> 10 then
          (case WriteSSTable env kv1 of
             (Some err, kv2) \<Rightarrow> kv2
           | (None, kv2) \<Rightarrow> snd (ClearWAL env (kv2\<lparr>data := fmempty, DeletedKeys := fmempty\<rparr>)))
        else kv1)"

definition Delete :: "io \<Rightarrow> string \<Rightarrow> KeyValueStore \<Rightarrow> (byte_slice \<times> bool) \<times> KeyValueStore" where
  "Delete env key kv =
     (case fmlookup (data kv) key of
        Some value \<Rightarrow>
          (let kv1 = writeToWAL env (logEntry ''delete'' key value) kv
           in ((value, True), kv1\<lparr>data := fmdrop key (data kv1)\<rparr>))
      | None \<Rightarrow>
          (case Get env key kv of
             (value, True) \<Rightarrow>
               (let kv1 = writeToWAL env (logEntry ''delete'' key value) kv
                in ((value, True), kv1\<lparr>DeletedKeys := fmupd key True (DeletedKeys kv1)\<rparr>))
           | (value, False) \<Rightarrow> ((value, False), kv)))"

section \<open>Recovery\<close>

text \<open>
  \<^verbatim>\<open>RecoverFromWAL\<close> opens the log file by name and hands it to a \<^verbatim>\<open>json.Decoder\<close>.
  The decoder belongs to the Go library (and \<^verbatim>\<open>json.Marshal\<close> rewrites bytes that are not
  UTF-8, so what is decoded need not be what was logged); the model takes what the decoder
  yields, value by value: a decoded object or an error other than \<^verbatim>\<open>io.EOF\<close>.  The end
  of the list is \<^verbatim>\<open>io.EOF\<close>.  A failed type assertion panics.
\<close>

datatype decoded = Entry log_entry | Malformed

text \<open>The \<^verbatim>\<open>switch\<close> on the operation of one decoded entry.\<close>

definition apply_entry :: "log_entry \<Rightarrow> KeyValueStore \<Rightarrow> error + KeyValueStore" where
  "apply_entry e kv =
     (case fmlookup e ''operation'' of
        Some (JString operation) \<Rightarrow>
          if operation = ''set'' then
            (case fmlookup e ''key'' of
               Some (JString key) \<Rightarrow>
                 (case fmlookup e ''value'' of
                    Some (JString value) \<Rightarrow> Inr (kv\<lparr>data := fmupd key (Slice value) (data kv)\<rparr>)
                  | _ \<Rightarrow> Inl Panic)
             | _ \<Rightarrow> Inl Panic)
          else if operation = ''delete'' then
            (case fmlookup e ''key'' of
               Some (JString key) \<Rightarrow>
                 (case fmlookup e ''value'' of
                    Some (JString value) \<Rightarrow> Inr (kv\<lparr>data := fmdrop key (data kv)\<rparr>)
                  | _ \<Rightarrow> Inl Panic)
             | _ \<Rightarrow> Inl Panic)
          else Inr kv
      | _ \<Rightarrow> Inl Panic)"

text \<open>The decoding loop: it ends at \<^verbatim>\<open>io.EOF\<close>, at a decoding error, or in a panic.\<close>

fun replay :: "decoded list \<Rightarrow> KeyValueStore \<Rightarrow> error option \<times> KeyValueStore" where
  "replay [] kv = (None, kv)"
| "replay (Malformed # rest) kv = (Some DecodeError, kv)"
| "replay (Entry e # rest) kv =
     (case apply_entry e kv of
        Inl err \<Rightarrow> (Some err, kv)
      | Inr kv' \<Rightarrow> replay rest kv')"

definition RecoverFromWAL ::
  "bool \<Rightarrow> decoded list \<Rightarrow> KeyValueStore \<Rightarrow> error option \<times> KeyValueStore" where
  "RecoverFromWAL opened stream kv =
     (if \<not> opened then (Some OpenError, kv) else replay stream kv)"

section \<open>Auxiliary notions for the properties\<close>

text \<open>
  The sizes of a table that reads back as written: the number of keys fits into the
  \<^verbatim>\<open>uint32\<close> that \<^verbatim>\<open>WriteSSTable\<close> converts it to, and every key and value is read by one
  call of \<^verbatim>\<open>file.Read\<close>.
\<close>

definition sizes_fit :: "KeyValueStore \<Rightarrow> bool" where
  "sizes_fit kv =
     (length (flush_keys kv) < 2 ^ 32 \<and>
      (\<forall>key \<in> set (flush_keys kv). length key \<le> maxRW \<and> len (fst (data_lookup kv key)) \<le> maxRW))"

text \<open>What \<^verbatim>\<open>SearchSSTFile\<close> returns for a key that the table written from \<open>kv\<close> holds.\<close>

definition table_entry :: "KeyValueStore \<Rightarrow> string \<Rightarrow> byte_slice \<times> bool" where
  "table_entry kv key =
     (if deleted kv key then (Slice ''DELETED'', True)
      else (Slice (bytes_of (fst (data_lookup kv key))), True))"

text \<open>A sequence of calls of \<^verbatim>\<open>Set\<close>, all under the same outcome of the system calls.\<close>

definition puts :: "io \<Rightarrow> (string \<times> byte_slice) list \<Rightarrow> KeyValueStore \<Rightarrow> KeyValueStore" where
  "puts env kvs kv = fold (\<lambda>(key, value). Set env key value) kvs kv"

text \<open>Lines 74 to 93 of \<^verbatim>\<open>Set\<close> for a sequence of pairs: what a run of calls does that never
  meets a tombstone nor the threshold.\<close>

definition stores :: "io \<Rightarrow> (string \<times> byte_slice) list \<Rightarrow> KeyValueStore \<Rightarrow> KeyValueStore" where
  "stores env kvs kv = fold (\<lambda>(key, value). store_entry env key value) kvs kv"

text \<open>
  The states of a running store: opened by \<^verbatim>\<open>NewKeyValueStore\<close> on any directory, then
  any calls of the methods that change it.
\<close>

inductive reachable :: "KeyValueStore \<Rightarrow> bool" where
  new: "NewKeyValueStore True walFilePath files tables = Inr kv \<Longrightarrow> reachable kv"
| set: "reachable kv \<Longrightarrow> reachable (Set env key value kv)"
| del: "reachable kv \<Longrightarrow> reachable (snd (Delete env key kv))"
| recover: "reachable kv \<Longrightarrow> reachable (snd (RecoverFromWAL opened stream kv))"

text \<open>
  Recovery in the words of the specification: a \<open>set\<close> record is a raw insertion into the
  live mapping, a \<open>delete\<close> record a raw removal, in file order.
\<close>

fun raw_apply ::
  "string \<times> string \<times> string \<Rightarrow> (string, byte_slice) fmap \<Rightarrow> (string, byte_slice) fmap" where
  "raw_apply (operation, key, value) m =
     (if operation = ''set'' then fmupd key (Slice value) m
      else if operation = ''delete'' then fmdrop key m
      else m)"

definition raw_replay ::
  "(string \<times> string \<times> string) list \<Rightarrow> (string, byte_slice) fmap \<Rightarrow> (string, byte_slice) fmap" where
  "raw_replay records m = fold raw_apply records m"

text \<open>The entry of the log file that a record decodes to.\<close>

definition decoded_record :: "string \<times> string \<times> string \<Rightarrow> decoded" where
  "decoded_record r = (case r of (operation, key, value) \<Rightarrow> Entry (logEntry operation key (Slice value)))"

text \<open>Examples: every system call succeeds; the store that \<^verbatim>\<open>main\<close> opens in an empty directory.\<close>

definition good_io :: io where
  "good_io = \<lparr>wal_write_ok = True, create_ok = True, write_limit = None, close_ok = True,
              truncate_ok = True, reopen_ok = True, open_ok = True\<rparr>"

definition fresh_store :: KeyValueStore where
  "fresh_store = \<lparr>data = fmempty, wal_name = ''wal.log'', wal_closed = False,
                   smallestKeyLength = 0, largestKeyLength = 0, DeletedKeys = fmempty,
                   logs = fmupd ''wal.log'' [] fmempty, sstables = []\<rparr>"

definition ten_pairs :: "(string \<times> byte_slice) list" where
  "ten_pairs = [(''a'', Slice ''1''), (''b'', Slice ''2''), (''c'', Slice ''3''), (''d'', Slice ''4''),
                (''e'', Slice ''5''), (''f'', Slice ''6''), (''g'', Slice ''7''), (''h'', Slice ''8''),
                (''i'', Slice ''9''), (''j'', Slice ''10'')]"

definition ten_more :: "(string \<times> byte_slice) list" where
  "ten_more = [(''k'', Slice ''11''), (''l'', Slice ''12''), (''m'', Slice ''13''), (''n'', Slice ''14''),
               (''o'', Slice ''15''), (''p'', Slice ''16''), (''q'', Slice ''17''), (''r'', Slice ''18''),
               (''s'', Slice ''19''), (''t'', Slice ''20'')]"

text \<open>
  A run of the store: ten keys are put, which flushes them into a first table; then the
  key \<open>a\<close>, now only on disk, is deleted, which leaves a tombstone in memory.
\<close>

definition first_memtable :: KeyValueStore where
  "first_memtable = stores good_io ten_pairs fresh_store"

definition flushed_store :: KeyValueStore where
  "flushed_store = puts good_io ten_pairs fresh_store"

definition tombstoned_store :: KeyValueStore where
  "tombstoned_store = snd (Delete good_io ''a'' flushed_store)"

text \<open>
  The run goes on in three ways.  Ten more keys are put, which flushes the tombstone into
  a second table.  Or \<open>a\<close> is put again, which only clears the tombstone; and then \<open>a\<close> is
  put once more with nine other keys, which flushes a third table.  Or the flush of the
  tenth key fails at its fourth write.
\<close>

definition second_memtable :: KeyValueStore where
  "second_memtable = stores good_io ten_more tombstoned_store"

definition shadowed_store :: KeyValueStore where
  "shadowed_store = puts good_io ten_more tombstoned_store"

definition revived_store :: KeyValueStore where
  "revived_store = Set good_io ''a'' (Slice ''x'') tombstoned_store"

definition ten_again :: "(string \<times> byte_slice) list" where
  "ten_again = [(''a'', Slice ''y''), (''k'', Slice ''11''), (''l'', Slice ''12''), (''m'', Slice ''13''),
                (''n'', Slice ''14''), (''o'', Slice ''15''), (''p'', Slice ''16''), (''q'', Slice ''17''),
                (''r'', Slice ''18''), (''s'', Slice ''19'')]"

definition third_memtable :: KeyValueStore where
  "third_memtable = stores good_io ten_again revived_store"

definition failing_io :: io where
  "failing_io = good_io\<lparr>write_limit := Some 3\<rparr>"

definition nine_stored :: KeyValueStore where
  "nine_stored = stores good_io (take 9 ten_pairs) fresh_store"

section \<open>Bytes written are the bytes read\<close>

lemma byte_char_of: "byte n = char_of n"
  by (simp add: byte_def char_of_def bit_iff_odd_drop_bit drop_bit_eq_div)

lemma of_char_byte: "of_char (byte n) = n mod 256"
  by (simp add: byte_char_of)

lemma le_nat_le16: "n < 2 ^ 16 \<Longrightarrow> le_nat (le16 n) = n"
  by (simp add: le16_def of_char_byte)

lemma le_nat_le32:
  assumes "n < 2 ^ 32"
  shows "le_nat (le32 n) = n"
proof -
  define a where "a = n div 256"
  define b where "b = a div 256"
  define c where "c = b div 256"
  have e1: "n div 65536 = b"
    by (simp add: a_def b_def div_mult2_eq [symmetric])
  have e2: "n div 16777216 = c"
    by (simp add: a_def b_def c_def div_mult2_eq [symmetric])
  have "c < 256"
    using assms unfolding e2 [symmetric] by (simp add: less_mult_imp_div_less)
  then have c: "c mod 256 = c" by simp
  have n: "n = n mod 256 + 256 * a" by (simp add: a_def)
  have a: "a = a mod 256 + 256 * b" by (simp add: b_def)
  have b: "b = b mod 256 + 256 * c" by (simp add: c_def)
  have "le_nat (le32 n) = n mod 256 + 256 * (a mod 256 + 256 * (b mod 256 + 256 * c))"
    by (simp add: le32_def of_char_byte e1 e2 c a_def [symmetric])
  also have "\<dots> = n" using n a b by simp
  finally show ?thesis .
qed

lemma length_le32: "length (le32 n) = 4"
  by (simp add: le32_def)

lemma length_le16: "length (le16 n) = 2"
  by (simp add: le16_def)

lemma read_uint32_le32: "n < 2 ^ 32 \<Longrightarrow> read_uint32 (le32 n @ rest) = Some (n, rest)"
  by (simp add: read_uint32_def read_full_def length_le32 le_nat_le32)

lemma read_uint16_le16: "n < 2 ^ 16 \<Longrightarrow> read_uint16 (le16 n @ rest) = Some (n, rest)"
  by (simp add: read_uint16_def read_full_def length_le16 le_nat_le16)

lemma file_Read_prefix:
  "length bs \<le> maxRW \<Longrightarrow> file_Read (length bs) (bs @ rest) = Some (bs, rest)"
  by (cases bs) (simp_all add: file_Read_def Let_def min_def)

lemma maxRW_less: "n \<le> maxRW \<Longrightarrow> n < 4294967296"
  by (simp add: maxRW_def)

lemma uint32_less: "uint32 n < 4294967296"
proof -
  have "0 \<le> n mod 2 ^ 32" and "n mod 2 ^ 32 < 2 ^ 32" by simp_all
  then show ?thesis by (simp add: uint32_def nat_less_iff)
qed

lemma uint32_int: "n < 2 ^ 32 \<Longrightarrow> uint32 (int n) = n"
  by (simp add: uint32_def nat_mod_distrib)

lemma read_entry_entry_writes:
  assumes "length key \<le> maxRW" and "len (fst (data_lookup kv key)) \<le> maxRW"
  shows "read_entry (concat (entry_writes kv key) @ rest) =
           Some ((if deleted kv key then 1 else 0, key, bytes_of (fst (data_lookup kv key))), rest)"
proof -
  have l: "length (bytes_of v) = len v" for v
    by (cases v) simp_all
  from assms have "length key < 2 ^ 32" and "len (fst (data_lookup kv key)) < 2 ^ 32"
    by (simp_all add: maxRW_less)
  with assms show ?thesis
    by (simp add: read_entry_def entry_writes_def Let_def read_uint16_le16 read_uint32_le32
        uint32_int file_Read_prefix l [symmetric])
qed

lemma scan_entries_written:
  assumes "\<forall>k \<in> set ks. length k \<le> maxRW \<and> len (fst (data_lookup kv k)) \<le> maxRW"
  shows "scan_entries key (length ks) (concat (concat (map (entry_writes kv) ks))) =
           (if key \<in> set ks then table_entry kv key else (nil, False))"
  using assms
proof (induction ks)
  case Nil
  then show ?case by simp
next
  case (Cons k ks)
  then have r: "read_entry (concat (entry_writes kv k) @ concat (concat (map (entry_writes kv) ks))) =
           Some ((if deleted kv k then 1 else 0, k, bytes_of (fst (data_lookup kv k))),
                 concat (concat (map (entry_writes kv) ks)))"
    by (simp add: read_entry_entry_writes)
  from Cons show ?case
    by (simp add: r table_entry_def)
qed

lemma SearchSSTFile_written:
  assumes "open_ok env" and "sizes_fit kv"
  shows "SearchSSTFile env key (concat (sst_writes kv)) =
           (if key \<in> set (flush_keys kv) then table_entry kv key else (nil, False))"
proof -
  have "file_Read 4 (''SSTB'' @ rest) = Some (''SSTB'', rest)" for rest
    by (simp add: file_Read_def maxRW_def)
  then show ?thesis
    using assms
    by (simp add: SearchSSTFile_def sst_writes_def Let_def sizes_fit_def read_uint32_le32
        uint32_less uint32_int scan_entries_written)
qed

section \<open>What each operation leaves alone\<close>

lemma writeToWAL_fields [simp]:
  "data (writeToWAL env e kv) = data kv"
  "DeletedKeys (writeToWAL env e kv) = DeletedKeys kv"
  "sstables (writeToWAL env e kv) = sstables kv"
  "wal_name (writeToWAL env e kv) = wal_name kv"
  "wal_closed (writeToWAL env e kv) = wal_closed kv"
  "smallestKeyLength (writeToWAL env e kv) = smallestKeyLength kv"
  "largestKeyLength (writeToWAL env e kv) = largestKeyLength kv"
  by (simp_all add: writeToWAL_def)

lemma deleted_writeToWAL [simp]: "deleted (writeToWAL env e kv) k = deleted kv k"
  by (simp add: deleted_def)

lemma store_entry_fields [simp]:
  "data (store_entry env key value kv) = fmupd key value (data kv)"
  "DeletedKeys (store_entry env key value kv) = DeletedKeys kv"
  "sstables (store_entry env key value kv) = sstables kv"
  "wal_name (store_entry env key value kv) = wal_name kv"
  "wal_closed (store_entry env key value kv) = wal_closed kv"
  by (simp_all add: store_entry_def Let_def)

lemma WriteSSTable_fields [simp]:
  "data (snd (WriteSSTable env kv)) = data kv"
  "DeletedKeys (snd (WriteSSTable env kv)) = DeletedKeys kv"
  "logs (snd (WriteSSTable env kv)) = logs kv"
  "wal_name (snd (WriteSSTable env kv)) = wal_name kv"
  "wal_closed (snd (WriteSSTable env kv)) = wal_closed kv"
  "smallestKeyLength (snd (WriteSSTable env kv)) = smallestKeyLength kv"
  "largestKeyLength (snd (WriteSSTable env kv)) = largestKeyLength kv"
  by (simp_all add: WriteSSTable_def Let_def split: option.split)

lemma WriteSSTable_ok:
  "fst (WriteSSTable env kv) = None \<Longrightarrow>
     snd (WriteSSTable env kv) = kv\<lparr>sstables := concat (sst_writes kv) # sstables kv\<rparr>"
  by (simp add: WriteSSTable_def Let_def split: option.splits if_splits)

lemma ClearWAL_fields [simp]:
  "data (snd (ClearWAL env kv)) = data kv"
  "DeletedKeys (snd (ClearWAL env kv)) = DeletedKeys kv"
  "sstables (snd (ClearWAL env kv)) = sstables kv"
  "smallestKeyLength (snd (ClearWAL env kv)) = smallestKeyLength kv"
  "largestKeyLength (snd (ClearWAL env kv)) = largestKeyLength kv"
  by (simp_all add: ClearWAL_def Let_def)

lemma apply_entry_fields:
  "apply_entry e kv = Inr kv' \<Longrightarrow>
     DeletedKeys kv' = DeletedKeys kv \<and> sstables kv' = sstables kv \<and> logs kv' = logs kv \<and>
     wal_name kv' = wal_name kv \<and> wal_closed kv' = wal_closed kv \<and>
     smallestKeyLength kv' = smallestKeyLength kv \<and> largestKeyLength kv' = largestKeyLength kv"
  by (auto simp add: apply_entry_def split: option.splits json.splits if_splits)

lemma replay_fields:
  "DeletedKeys (snd (replay stream kv)) = DeletedKeys kv \<and>
   sstables (snd (replay stream kv)) = sstables kv \<and>
   logs (snd (replay stream kv)) = logs kv \<and>
   wal_name (snd (replay stream kv)) = wal_name kv \<and>
   wal_closed (snd (replay stream kv)) = wal_closed kv \<and>
   smallestKeyLength (snd (replay stream kv)) = smallestKeyLength kv \<and>
   largestKeyLength (snd (replay stream kv)) = largestKeyLength kv"
proof (induction stream kv rule: replay.induct)
  case (3 e rest kv)
  show ?case
  proof (cases "apply_entry e kv")
    case (Inl err)
    then show ?thesis by simp
  next
    case (Inr kv')
    with "3" [OF Inr] apply_entry_fields [OF Inr] show ?thesis by simp
  qed
qed simp_all

lemma search_files_not_found:
  "\<forall>f \<in> set files. snd (SearchSSTFile env key f) = False \<Longrightarrow> search_files env key files = (nil, False)"
  by (induction files) (auto split: prod.split bool.split)

lemma Set_cases:
  "Set env key value kv =
     (if deleted kv key then kv\<lparr>DeletedKeys := fmupd key False (DeletedKeys kv)\<rparr>
      else if fcard (fmdom (data (store_entry env key value kv))) < 10 then store_entry env key value kv
      else if fst (WriteSSTable env (store_entry env key value kv)) \<noteq> None
        then snd (WriteSSTable env (store_entry env key value kv))
      else snd (ClearWAL env (snd (WriteSSTable env (store_entry env key value kv))
                 \<lparr>data := fmempty, DeletedKeys := fmempty\<rparr>)))"
  by (auto simp add: Set_def Let_def split: prod.split option.split)

lemma deleted_Set: "deleted (Set env key value kv) k \<Longrightarrow> deleted kv k"
  by (auto simp add: Set_cases deleted_def split: if_splits)

lemma sstables_Set: "\<exists>pre. sstables (Set env key value kv) = pre @ sstables kv"
proof -
  have "\<exists>pre. sstables (snd (WriteSSTable env kv')) = pre @ sstables kv'" for kv'
    by (simp add: WriteSSTable_def Let_def split: option.split)
  from this [of "store_entry env key value kv"] show ?thesis
    by (auto simp add: Set_cases)
qed

lemma deleted_needs_table:
  "reachable kv \<Longrightarrow> deleted kv k \<Longrightarrow> sstables kv \<noteq> []"
proof (induction arbitrary: k rule: reachable.induct)
  case (new walFilePath files tables kv)
  then show ?case by (auto simp add: NewKeyValueStore_def deleted_def)
next
  case (set kv env key "value")
  from set.prems have "deleted kv k" by (rule deleted_Set)
  then have "sstables kv \<noteq> []" by (rule set.IH)
  with sstables_Set [of env key "value" kv] show ?case by auto
next
  case (del kv env key)
  show ?case
  proof (cases "sstables kv = []")
    case True
    then have "Get env key kv = (nil, False) \<or> fmlookup (data kv) key \<noteq> None"
      by (auto simp add: Get_def data_lookup_def SearchSSTFiles_def split: option.split)
    with del.prems have "deleted kv k"
      by (auto simp add: Delete_def Let_def deleted_def split: option.splits)
    with del.IH True show ?thesis by blast
  next
    case False
    then show ?thesis
      by (auto simp add: Delete_def Let_def split: option.splits prod.splits bool.splits)
  qed
next
  case (recover kv opened stream)
  then show ?case
    using replay_fields [of stream kv]
    by (auto simp add: RecoverFromWAL_def deleted_def)
qed

lemma fresh_store_new: "NewKeyValueStore True ''wal.log'' fmempty [] = Inr fresh_store"
  by (simp add: NewKeyValueStore_def fresh_store_def)

lemma reachable_fresh_store: "reachable fresh_store"
  using fresh_store_new by (rule reachable.new)

section \<open>Runs of \<^verbatim>\<open>Set\<close> below the threshold\<close>

lemma deleted_store_entry [simp]: "deleted (store_entry env key value kv) k = deleted kv k"
  by (simp add: deleted_def)

lemma fcard_fmdom_fmupd_le: "fcard (fmdom (fmupd k v m)) \<le> Suc (fcard (fmdom m))"
  by (simp add: fcard_finsert_if)

lemma puts_Cons: "puts env ((key, value) # kvs) kv = puts env kvs (Set env key value kv)"
  by (simp add: puts_def)

lemma puts_append: "puts env (xs @ ys) kv = puts env ys (puts env xs kv)"
  by (simp add: puts_def)

lemma stores_Cons: "stores env ((key, value) # kvs) kv = stores env kvs (store_entry env key value kv)"
  by (simp add: stores_def)

lemma stores_Nil: "stores env [] kv = kv"
  by (simp add: stores_def)

lemma puts_below_threshold:
  assumes "\<forall>k \<in> fst ` set kvs. \<not> deleted kv k"
    and "fcard (fmdom (data kv)) + length kvs < 10"
  shows "puts env kvs kv = stores env kvs kv"
  using assms
proof (induction kvs arbitrary: kv)
  case Nil
  then show ?case by (simp add: puts_def stores_def)
next
  case (Cons p kvs)
  obtain key "value" where p: "p = (key, value)" by (cases p)
  from Cons.prems p have live: "\<not> deleted kv key" by simp
  have "fcard (fmdom (fmupd key value (data kv))) \<le> Suc (fcard (fmdom (data kv)))"
    by (rule fcard_fmdom_fmupd_le)
  with Cons.prems have small: "fcard (fmdom (data (store_entry env key value kv))) + length kvs < 10"
    by simp
  with live have step: "Set env key value kv = store_entry env key value kv"
    by (simp add: Set_cases)
  from Cons.prems have "\<forall>k \<in> fst ` set kvs. \<not> deleted (store_entry env key value kv) k"
    by simp
  from Cons.IH [OF this small] show ?case
    by (simp add: p puts_Cons stores_Cons step)
qed

lemma stores_fields [simp]:
  "DeletedKeys (stores env kvs kv) = DeletedKeys kv"
  "sstables (stores env kvs kv) = sstables kv"
  "wal_name (stores env kvs kv) = wal_name kv"
  "wal_closed (stores env kvs kv) = wal_closed kv"
  by (induction kvs arbitrary: kv; simp add: stores_def split: prod.split)+

lemma fmdom_stores:
  "fset (fmdom (data (stores env kvs kv))) = fset (fmdom (data kv)) \<union> fst ` set kvs"
proof (induction kvs arbitrary: kv)
  case Nil
  then show ?case by (simp add: stores_Nil)
next
  case (Cons p kvs)
  obtain key "value" where p: "p = (key, value)" by (cases p)
  show ?case
    unfolding p stores_Cons Cons.IH by auto
qed

lemma fcard_stores_empty:
  assumes "data kv = fmempty" and "distinct (map fst kvs)"
  shows "fcard (fmdom (data (stores env kvs kv))) = length kvs"
proof -
  have "fcard (fmdom (data (stores env kvs kv))) = card (set (map fst kvs))"
    using assms(1) by (simp add: fcard.rep_eq fmdom_stores)
  also have "\<dots> = length kvs"
    using assms(2) distinct_card [of "map fst kvs"] by simp
  finally show ?thesis .
qed

lemma wal_contents_store_entry:
  assumes "\<not> wal_closed kv" and "wal_write_ok env"
  shows "wal_contents (store_entry env key value kv) = wal_contents kv @ [logEntry ''set'' key value]"
    and "wal_name kv |\<in>| fmdom (logs (store_entry env key value kv))"
  using assms by (simp_all add: store_entry_def Let_def writeToWAL_def wal_contents_def)

lemma stores_snoc: "stores env (kvs @ [(key, value)]) kv = store_entry env key value (stores env kvs kv)"
  by (simp add: stores_def)

lemma WriteSSTable_succeeds:
  "create_ok env \<Longrightarrow> write_limit env = None \<Longrightarrow>
     WriteSSTable env kv = (None, kv\<lparr>sstables := concat (sst_writes kv) # sstables kv\<rparr>)"
  by (simp add: WriteSSTable_def Let_def)

lemma WriteSSTable_adds_file:
  "create_ok env \<Longrightarrow> \<exists>file. sstables (snd (WriteSSTable env kv)) = file # sstables kv"
  by (simp add: WriteSSTable_def Let_def split: option.split)

lemma ClearWAL_succeeds:
  assumes "\<not> wal_closed kv" and "close_ok env" and "truncate_ok env" and "reopen_ok env"
    and "''wal.log'' |\<in>| fmdom (logs kv)"
  shows "ClearWAL env kv =
           (None, kv\<lparr>logs := fmupd ''wal.log'' [] (logs kv), wal_name := ''wal.log'', wal_closed := False\<rparr>)"
  using assms by (simp add: ClearWAL_def Let_def)

lemma Set_flushes_iff:
  assumes "create_ok env" and "\<not> deleted kv key"
  shows "(sstables (Set env key value kv) \<noteq> sstables kv) =
           (10 \<le> fcard (fmdom (fmupd key value (data kv))))"
proof -
  obtain tbl where "sstables (snd (WriteSSTable env (store_entry env key value kv))) = tbl # sstables kv"
    using WriteSSTable_adds_file [OF assms(1), of "store_entry env key value kv"] by auto
  with assms(2) show ?thesis
    by (auto simp add: Set_cases)
qed

lemma puts_ten:
  assumes empty: "data kv = fmempty" "\<forall>k \<in> fst ` set kvs. \<not> deleted kv k"
    and keys: "distinct (map fst kvs)" "length kvs = 10"
    and ok: "wal_write_ok env" "create_ok env" "write_limit env = None"
            "close_ok env" "truncate_ok env" "reopen_ok env"
    and wal: "wal_name kv = ''wal.log''" "\<not> wal_closed kv"
  shows "puts env kvs kv =
           (stores env kvs kv)
             \<lparr>sstables := concat (sst_writes (stores env kvs kv)) # sstables kv,
              data := fmempty, DeletedKeys := fmempty,
              logs := fmupd ''wal.log'' [] (logs (stores env kvs kv)),
              wal_name := ''wal.log'', wal_closed := False\<rparr>"
proof -
  from keys(2) have "kvs \<noteq> []" by auto
  then have split: "butlast kvs @ [last kvs] = kvs" by simp
  obtain key "value" where l: "last kvs = (key, value)" by (cases "last kvs")
  define s9 where "s9 = stores env (butlast kvs) kv"
  define s10 where "s10 = store_entry env key value s9"
  have "set (butlast kvs) \<subseteq> set kvs"
    by (auto dest: in_set_butlastD)
  with empty(2) have "\<forall>k \<in> fst ` set (butlast kvs). \<not> deleted kv k"
    by blast
  then have "puts env (butlast kvs) kv = stores env (butlast kvs) kv"
    using empty(1) keys(2) by (intro puts_below_threshold) (simp_all add: fcard_fempty)
  then have nine: "puts env (butlast kvs) kv = s9"
    by (simp add: s9_def)
  have "puts env (butlast kvs @ [last kvs]) kv = Set env key value s9"
    unfolding puts_append nine l by (simp add: puts_def)
  then have run: "puts env kvs kv = Set env key value s9"
    unfolding split .
  have "stores env (butlast kvs @ [last kvs]) kv = s10"
    unfolding l stores_snoc s10_def s9_def ..
  then have s10: "s10 = stores env kvs kv"
    unfolding split ..
  have full: "fcard (fmdom (data s10)) = 10"
    using fcard_stores_empty [OF empty(1) keys(1), of env] keys(2) by (simp add: s10)
  have "(key, value) \<in> set kvs"
    using l \<open>kvs \<noteq> []\<close> last_in_set [of kvs] by simp
  with empty(2) have "\<not> deleted kv key" by force
  then have live9: "\<not> deleted s9 key"
    by (simp add: s9_def deleted_def)
  have handle: "\<not> wal_closed s9" "wal_name s9 = ''wal.log''"
    using wal by (simp_all add: s9_def)
  have logfile: "''wal.log'' |\<in>| fmdom (logs s10)"
    using wal_contents_store_entry(2) [OF handle(1) ok(1), of key "value"] handle(2)
    by (simp add: s10_def)
  define s11 where "s11 = s10\<lparr>sstables := concat (sst_writes s10) # sstables s10\<rparr>"
  have written: "WriteSSTable env s10 = (None, s11)"
    unfolding s11_def using ok(2,3) by (rule WriteSSTable_succeeds)
  have closed10: "\<not> wal_closed s10"
    using handle(1) by (simp add: s10_def)
  have cleared: "ClearWAL env (s11\<lparr>data := fmempty, DeletedKeys := fmempty\<rparr>) =
      (None, s11\<lparr>data := fmempty, DeletedKeys := fmempty,
                 logs := fmupd ''wal.log'' [] (logs s10), wal_name := ''wal.log'', wal_closed := False\<rparr>)"
    using ClearWAL_succeeds [of "s11\<lparr>data := fmempty, DeletedKeys := fmempty\<rparr>" env]
      ok(4,5,6) logfile closed10
    by (simp add: s11_def)
  have result: "Set env key value s9 =
      s11\<lparr>data := fmempty, DeletedKeys := fmempty,
          logs := fmupd ''wal.log'' [] (logs s10), wal_name := ''wal.log'', wal_closed := False\<rparr>"
    using live9 full written cleared
    by (simp add: Set_def Let_def s10_def [symmetric])
  have "sstables s10 = sstables kv"
    by (simp add: s10)
  then show ?thesis
    by (simp add: run result s11_def s10 [symmetric])
qed

section \<open>The keys of a table\<close>

lemma sorted_list_of_fset_length: "length (sorted_list_of_fset A) = fcard A"
  by (simp add: sorted_list_of_fset.rep_eq fcard.rep_eq)

lemma set_flush_keys:
  "set (flush_keys kv) = fset (fmdom (data kv)) \<union> fset (fmdom (DeletedKeys kv))"
  by (simp add: flush_keys_def)

lemma length_flush_keys:
  "length (flush_keys kv) = fcard (fmdom (data kv)) + fcard (fmdom (DeletedKeys kv))"
  by (simp add: flush_keys_def sorted_list_of_fset_length)

lemma sorted_flush_keys: "sorted (flush_keys kv)"
  by (simp add: flush_keys_def)

lemma distinct_flush_keys:
  "distinct (flush_keys kv) = (fmdom (data kv) |\<inter>| fmdom (DeletedKeys kv) = {||})"
proof -
  have "distinct (flush_keys kv) =
          distinct (sorted_list_of_fset (fmdom (data kv)) @ sorted_list_of_fset (fmdom (DeletedKeys kv)))"
    unfolding flush_keys_def by (rule distinct_sort)
  also have "\<dots> = (fset (fmdom (data kv)) \<inter> fset (fmdom (DeletedKeys kv)) = {})"
    by (simp add: sorted_list_of_fset.rep_eq)
  also have "\<dots> = (fmdom (data kv) |\<inter>| fmdom (DeletedKeys kv) = {||})"
    by (metis bot_fset.rep_eq fset_inject inf_fset.rep_eq)
  finally show ?thesis .
qed

section \<open>A run with two flushes\<close>

lemma data_stores:
  "data (stores env kvs kv) = fold (\<lambda>(key, value). fmupd key value) kvs (data kv)"
  by (induction kvs arbitrary: kv) (auto simp add: stores_Nil stores_Cons)

lemma good_io_simps [simp]:
  "wal_write_ok good_io" "create_ok good_io" "write_limit good_io = None"
  "close_ok good_io" "truncate_ok good_io" "reopen_ok good_io" "open_ok good_io"
  by (simp_all add: good_io_def)

lemma flushed_store_eq:
  "flushed_store =
     first_memtable
       \<lparr>sstables := [concat (sst_writes first_memtable)], data := fmempty, DeletedKeys := fmempty,
        logs := fmupd ''wal.log'' [] (logs first_memtable),
        wal_name := ''wal.log'', wal_closed := False\<rparr>"
proof -
  have "puts good_io ten_pairs fresh_store =
      (stores good_io ten_pairs fresh_store)
        \<lparr>sstables := concat (sst_writes (stores good_io ten_pairs fresh_store)) # sstables fresh_store,
         data := fmempty, DeletedKeys := fmempty,
         logs := fmupd ''wal.log'' [] (logs (stores good_io ten_pairs fresh_store)),
         wal_name := ''wal.log'', wal_closed := False\<rparr>"
    by (rule puts_ten) (simp_all add: fresh_store_def ten_pairs_def deleted_def)
  then show ?thesis
    by (simp add: flushed_store_def first_memtable_def fresh_store_def)
qed

lemma first_memtable_fields:
  "data first_memtable = fold (\<lambda>(key, value). fmupd key value) ten_pairs fmempty"
  "DeletedKeys first_memtable = fmempty"
  by (simp_all add: first_memtable_def data_stores fresh_store_def)

lemma sizes_fit_first_memtable: "sizes_fit first_memtable"
  by (simp add: sizes_fit_def maxRW_def length_flush_keys set_flush_keys first_memtable_fields
      ten_pairs_def fcard_finsert_if fcard_fempty data_lookup_def)

lemma first_table_lookup:
  "SearchSSTFile good_io ''a'' (concat (sst_writes first_memtable)) = (Slice ''1'', True)"
  by (simp add: SearchSSTFile_written sizes_fit_first_memtable set_flush_keys table_entry_def
      deleted_def data_lookup_def first_memtable_fields ten_pairs_def)

lemma tombstoned_store_eq:
  "tombstoned_store =
     flushed_store\<lparr>logs := fmupd ''wal.log'' [logEntry ''delete'' ''a'' (Slice ''1'')] (logs flushed_store),
                   DeletedKeys := fmupd ''a'' True fmempty\<rparr>"
  by (simp add: tombstoned_store_def Delete_def Get_def data_lookup_def deleted_def
      SearchSSTFiles_def first_table_lookup flushed_store_eq writeToWAL_def wal_contents_def Let_def)

lemma search_files_stops:
  assumes "\<forall>f \<in> set newer. snd (SearchSSTFile env key f) = False"
    and "SearchSSTFile env key tbl = (v, True)"
  shows "search_files env key (newer @ tbl # older) = (v, True)"
  using assms by (induction newer) (auto split: prod.split bool.split)

lemma Get_tombstone_on_disk:
  assumes "fmlookup (data kv) key = None" and "\<not> deleted kv key"
    and "sstables kv = newer @ concat (sst_writes src) # older"
    and "\<forall>f \<in> set newer. snd (SearchSSTFile env key f) = False"
    and "open_ok env" and "sizes_fit src"
    and "key \<in> set (flush_keys src)" and "deleted src key"
  shows "Get env key kv = (Slice ''DELETED'', True)"
proof -
  from assms(5-8) have "SearchSSTFile env key (concat (sst_writes src)) = (Slice ''DELETED'', True)"
    by (simp add: SearchSSTFile_written table_entry_def)
  with assms(4) have "search_files env key (newer @ concat (sst_writes src) # older) =
      (Slice ''DELETED'', True)"
    by (rule search_files_stops)
  with assms(1-3) show ?thesis
    by (simp add: Get_def data_lookup_def SearchSSTFiles_def)
qed

lemma tombstoned_store_fields:
  "data tombstoned_store = fmempty"
  "DeletedKeys tombstoned_store = fmupd ''a'' True fmempty"
  "sstables tombstoned_store = [concat (sst_writes first_memtable)]"
  "wal_name tombstoned_store = ''wal.log''"
  "wal_closed tombstoned_store = False"
  "wal_contents tombstoned_store = [logEntry ''delete'' ''a'' (Slice ''1'')]"
  by (simp_all add: tombstoned_store_eq flushed_store_eq wal_contents_def)

lemma shadowed_store_eq:
  "shadowed_store =
     second_memtable
       \<lparr>sstables := [concat (sst_writes second_memtable), concat (sst_writes first_memtable)],
        data := fmempty, DeletedKeys := fmempty,
        logs := fmupd ''wal.log'' [] (logs second_memtable),
        wal_name := ''wal.log'', wal_closed := False\<rparr>"
proof -
  have "puts good_io ten_more tombstoned_store =
      (stores good_io ten_more tombstoned_store)
        \<lparr>sstables := concat (sst_writes (stores good_io ten_more tombstoned_store)) # sstables tombstoned_store,
         data := fmempty, DeletedKeys := fmempty,
         logs := fmupd ''wal.log'' [] (logs (stores good_io ten_more tombstoned_store)),
         wal_name := ''wal.log'', wal_closed := False\<rparr>"
    by (rule puts_ten) (simp_all add: tombstoned_store_fields ten_more_def deleted_def)
  then show ?thesis
    by (simp add: shadowed_store_def second_memtable_def tombstoned_store_fields)
qed

lemma second_memtable_fields:
  "data second_memtable = fold (\<lambda>(key, value). fmupd key value) ten_more fmempty"
  "DeletedKeys second_memtable = fmupd ''a'' True fmempty"
  by (simp_all add: second_memtable_def data_stores tombstoned_store_fields)

lemma sizes_fit_second_memtable: "sizes_fit second_memtable"
  by (simp add: sizes_fit_def maxRW_def length_flush_keys set_flush_keys second_memtable_fields
      ten_more_def fcard_finsert_if fcard_fempty data_lookup_def)

lemma second_table_lookup:
  "SearchSSTFile good_io ''a'' (concat (sst_writes second_memtable)) = (Slice ''DELETED'', True)"
  by (simp add: SearchSSTFile_written sizes_fit_second_memtable set_flush_keys table_entry_def
      deleted_def second_memtable_fields)

lemma search_files_found_iff:
  "snd (search_files env key files) = (\<exists>f \<in> set files. snd (SearchSSTFile env key f))"
  by (induction files) (auto split: prod.split bool.split)

lemma search_files_found_in_any_order:
  "set files = set files' \<Longrightarrow> snd (search_files env key files) = snd (search_files env key files')"
  by (simp add: search_files_found_iff)

lemma tombstone_found_in_either_order:
  "search_files good_io ''a'' [concat (sst_writes second_memtable), concat (sst_writes first_memtable)] =
     (Slice ''DELETED'', True) \<and>
   search_files good_io ''a'' [concat (sst_writes first_memtable), concat (sst_writes second_memtable)] =
     (Slice ''1'', True)"
  by (simp add: first_table_lookup second_table_lookup)

lemma wal_contents_DeletedKeys_update [simp]:
  "wal_contents (kv\<lparr>DeletedKeys := d\<rparr>) = wal_contents kv"
  by (simp add: wal_contents_def)

lemma revived_store_eq:
  "revived_store = tombstoned_store\<lparr>DeletedKeys := fmupd ''a'' False (fmupd ''a'' True fmempty)\<rparr>"
  by (simp add: revived_store_def Set_def deleted_def tombstoned_store_fields)

lemma first_table_miss:
  "SearchSSTFile good_io ''zz'' (concat (sst_writes first_memtable)) = (nil, False)"
  by (simp add: SearchSSTFile_written sizes_fit_first_memtable set_flush_keys
      first_memtable_fields ten_pairs_def)

lemma apply_entry_logEntry:
  "apply_entry (logEntry operation key (Slice value)) kv =
     Inr (kv\<lparr>data := raw_apply (operation, key, value) (data kv)\<rparr>)"
  by (simp add: apply_entry_def logEntry_def)

lemma decoded_record_simp:
  "decoded_record (operation, key, value) = Entry (logEntry operation key (Slice value))"
  by (simp add: decoded_record_def)

lemma replay_decoded_records:
  "replay (map decoded_record records) kv = (None, kv\<lparr>data := raw_replay records (data kv)\<rparr>)"
proof (induction records arbitrary: kv)
  case Nil
  then show ?case by (simp add: raw_replay_def)
next
  case (Cons r records)
  obtain operation key "value" where r: "r = (operation, key, value)" by (cases r)
  show ?case
    unfolding r
    by (simp add: decoded_record_simp apply_entry_logEntry Cons.IH raw_replay_def del: raw_apply.simps)
qed

lemma replay_decoded_records_torn:
  "replay (map decoded_record records @ Malformed # rest) kv =
     (Some DecodeError, kv\<lparr>data := raw_replay records (data kv)\<rparr>)"
proof (induction records arbitrary: kv)
  case Nil
  then show ?case by (simp add: raw_replay_def)
next
  case (Cons r records)
  obtain operation key "value" where r: "r = (operation, key, value)" by (cases r)
  show ?case
    unfolding r
    by (simp add: decoded_record_simp apply_entry_logEntry Cons.IH raw_replay_def del: raw_apply.simps)
qed

lemma recovery_above_threshold:
  "fcard (fmdom (data (snd (RecoverFromWAL True
      (map decoded_record (map (\<lambda>(key, value). (''set'', key, bytes_of value)) (ten_pairs @ ten_more)))
      fresh_store)))) = 20 \<and>
   sstables (snd (RecoverFromWAL True
      (map decoded_record (map (\<lambda>(key, value). (''set'', key, bytes_of value)) (ten_pairs @ ten_more)))
      fresh_store)) = []"
proof -
  let ?records = "map (\<lambda>(key, value). (''set'', key, bytes_of value)) (ten_pairs @ ten_more)"
  define m where "m = raw_replay ?records (data fresh_store)"
  have r: "replay (map decoded_record ?records) fresh_store = (None, fresh_store\<lparr>data := m\<rparr>)"
    unfolding m_def by (rule replay_decoded_records)
  have c: "fcard (fmdom m) = 20"
    unfolding m_def
    by (simp add: raw_replay_def ten_pairs_def ten_more_def fresh_store_def fcard_finsert_if fcard_fempty)
  show ?thesis
    unfolding RecoverFromWAL_def r by (simp add: c fresh_store_def)
qed

lemma sorted_list_of_fset_fempty: "sorted_list_of_fset {||} = []"
  by (simp add: sorted_list_of_fset.rep_eq)

lemma sorted_list_of_fset_finsert:
  "sorted_list_of_fset (finsert x A) =
     (if x |\<in>| A then sorted_list_of_fset A else insort x (sorted_list_of_fset A))"
proof (cases "x |\<in>| A")
  case True
  then have "finsert x A = A" by (simp add: finsert_absorb)
  with True show ?thesis by simp
next
  case False
  then show ?thesis by (simp add: sorted_list_of_fset.rep_eq)
qed

lemma revived_store_fields:
  "data revived_store = fmempty"
  "DeletedKeys revived_store = fmupd ''a'' False (fmupd ''a'' True fmempty)"
  "sstables revived_store = [concat (sst_writes first_memtable)]"
  "wal_name revived_store = ''wal.log''"
  "wal_closed revived_store = False"
  "smallestKeyLength revived_store = 1"
  "largestKeyLength revived_store = 1"
  by (simp_all add: revived_store_eq tombstoned_store_eq flushed_store_eq first_memtable_def
      stores_def store_entry_def Let_def ten_pairs_def fresh_store_def)

lemma third_memtable_fields:
  "data third_memtable = fold (\<lambda>(key, value). fmupd key value) ten_again fmempty"
  "DeletedKeys third_memtable = fmupd ''a'' False (fmupd ''a'' True fmempty)"
  "smallestKeyLength third_memtable = 1"
  "largestKeyLength third_memtable = 1"
  by (simp_all add: third_memtable_def data_stores revived_store_fields
      stores_def store_entry_def Let_def ten_again_def)

lemma third_flush_eq:
  "puts good_io ten_again revived_store =
     third_memtable
       \<lparr>sstables := [concat (sst_writes third_memtable), concat (sst_writes first_memtable)],
        data := fmempty, DeletedKeys := fmempty,
        logs := fmupd ''wal.log'' [] (logs third_memtable),
        wal_name := ''wal.log'', wal_closed := False\<rparr>"
proof -
  have "puts good_io ten_again revived_store =
      (stores good_io ten_again revived_store)
        \<lparr>sstables := concat (sst_writes (stores good_io ten_again revived_store)) # sstables revived_store,
         data := fmempty, DeletedKeys := fmempty,
         logs := fmupd ''wal.log'' [] (logs (stores good_io ten_again revived_store)),
         wal_name := ''wal.log'', wal_closed := False\<rparr>"
    by (rule puts_ten) (simp_all add: revived_store_fields ten_again_def deleted_def)
  then show ?thesis
    by (simp add: third_memtable_def revived_store_fields)
qed

lemma flush_keys_third_memtable:
  "flush_keys third_memtable =
     [''a'', ''a'', ''k'', ''l'', ''m'', ''n'', ''o'', ''p'', ''q'', ''r'', ''s'']"
  by (simp add: flush_keys_def third_memtable_fields ten_again_def
      sorted_list_of_fset_finsert sorted_list_of_fset_fempty)

lemma nine_stored_fields:
  "data nine_stored = fold (\<lambda>(key, value). fmupd key value) (take 9 ten_pairs) fmempty"
  "DeletedKeys nine_stored = fmempty"
  by (simp_all add: nine_stored_def data_stores fresh_store_def)


section \<open>The table of a flush of fresh keys\<close>

lemma fmlookup_fold_fmupd:
  assumes "distinct (map fst kvs)" and "(key, value) \<in> set kvs"
  shows "fmlookup (fold (\<lambda>(k, v). fmupd k v) kvs m) key = Some value"
  using assms
proof (induction kvs arbitrary: m)
  case Nil
  then show ?case by simp
next
  case (Cons p kvs)
  obtain k v where p: "p = (k, v)" by (cases p)
  show ?case
  proof (cases "(key, value) \<in> set kvs")
    case True
    with Cons show ?thesis by simp
  next
    case False
    with Cons.prems p have e: "k = key" "v = value" by auto
    from Cons.prems p e have "key \<notin> fst ` set kvs" by simp
    then have "fmlookup (fold (\<lambda>(k, v). fmupd k v) kvs m') key = fmlookup m' key" for m'
      by (induction kvs arbitrary: m') (auto split: prod.splits)
    then show ?thesis by (simp add: p e)
  qed
qed

lemma fmlookup_stores:
  assumes "distinct (map fst kvs)" and "(key, value) \<in> set kvs"
  shows "fmlookup (data (stores env kvs kv)) key = Some value"
  using assms by (simp add: data_stores fmlookup_fold_fmupd)

lemma flush_keys_stores:
  assumes "data kv = fmempty" and "DeletedKeys kv = fmempty" and "distinct (map fst kvs)"
  shows "flush_keys (stores env kvs kv) = sort (map fst kvs)"
proof -
  have "sorted_list_of_fset (fmdom (data (stores env kvs kv))) = sorted_list_of_set (set (map fst kvs))"
    using assms(1) by (simp add: sorted_list_of_fset.rep_eq fmdom_stores)
  also have "\<dots> = sort (remdups (map fst kvs))"
    by (rule sorted_list_of_set_sort_remdups)
  also have "\<dots> = sort (map fst kvs)"
    using assms(3) by (simp only: distinct_remdups_id)
  finally have "sorted_list_of_fset (fmdom (data (stores env kvs kv))) = sort (map fst kvs)" .
  then show ?thesis
    using assms(2) by (simp add: flush_keys_def sorted_list_of_fset.rep_eq sorted_sort_id)
qed

lemma entry_writes_stores:
  assumes "DeletedKeys kv = fmempty" and "distinct (map fst kvs)" and "(key, value) \<in> set kvs"
  shows "entry_writes (stores env kvs kv) key =
           [le16 0, le32 (uint32 (int (length key))), le32 (uint32 (int (len value))), key, bytes_of value]"
    and "table_entry (stores env kvs kv) key = (Slice (bytes_of value), True)"
  using assms fmlookup_stores [OF assms(2,3), of env kv]
  by (simp_all add: entry_writes_def table_entry_def Let_def data_lookup_def deleted_def)

section \<open>The claims\<close>

text \<open>
  Claim C1.  The specification: when the newest table that holds a key marks it as a
  tombstone, \<^verbatim>\<open>Get\<close> reports the key as not found.  The code stops the search at that
  table, as specified, but hands the marker on as a value: after \<open>Put(a, 1)\<close> (flushed with
  nine other keys), \<open>Delete(a)\<close> and ten more keys (flushed with the tombstone), the older
  table still holds \<open>1\<close> for \<open>a\<close>, the newer one holds the tombstone, and \<^verbatim>\<open>Get\<close> returns
  the bytes \<open>DELETED\<close> with \<^verbatim>\<open>true\<close>.  The memory path of \<^verbatim>\<open>Get\<close> returns \<^verbatim>\<open>(nil, false)\<close>
  for a tombstone.  (\<open>Get_tombstone_on_disk\<close> is the general statement.  Were the two
  tables listed in the other order, as on equal modification times, the search would
  return \<open>1\<close> with \<^verbatim>\<open>true\<close>: found in either order, \<open>tombstone_found_in_either_order\<close>.)
\<close>

theorem tombstone_in_newest_table_reads_as_found:
  "sstables (puts good_io ten_more (snd (Delete good_io ''a'' (puts good_io ten_pairs fresh_store)))) =
     [concat (sst_writes second_memtable), concat (sst_writes first_memtable)] \<and>
   SearchSSTFile good_io ''a'' (concat (sst_writes first_memtable)) = (Slice ''1'', True) \<and>
   SearchSSTFile good_io ''a'' (concat (sst_writes second_memtable)) = (Slice ''DELETED'', True) \<and>
   Get good_io ''a'' (puts good_io ten_more (snd (Delete good_io ''a'' (puts good_io ten_pairs fresh_store)))) =
     (Slice ''DELETED'', True)"
proof -
  have run: "puts good_io ten_more (snd (Delete good_io ''a'' (puts good_io ten_pairs fresh_store))) =
      shadowed_store"
    by (simp add: shadowed_store_def tombstoned_store_def flushed_store_def)
  have "Get good_io ''a'' shadowed_store = (Slice ''DELETED'', True)"
    by (simp add: Get_def data_lookup_def deleted_def SearchSSTFiles_def shadowed_store_eq
        second_table_lookup)
  then show ?thesis
    unfolding run by (simp add: shadowed_store_eq first_table_lookup second_table_lookup)
qed

text \<open>
  Claim C2.  On a store in which no flush has occurred (no table file exists, also after
  the call), \<open>Put(k, v)\<close> followed by \<open>Get(k)\<close> returns \<open>(v, true)\<close>, whatever the system
  calls do.  That no key is tombstoned before any flush is part of the proof.
\<close>

theorem put_then_get_before_any_flush:
  assumes "reachable kv" and "sstables (Set env key value kv) = []"
  shows "Get env' key (Set env key value kv) = (value, True)"
proof -
  obtain pre where "sstables (Set env key value kv) = pre @ sstables kv"
    using sstables_Set by blast
  with assms(2) have empty: "sstables kv = []" by simp
  with deleted_needs_table [OF assms(1)] have live: "\<not> deleted kv key" by blast
  let ?kv1 = "store_entry env key value kv"
  have "sstables (snd (ClearWAL env (snd (WriteSSTable env ?kv1)\<lparr>data := fmempty, DeletedKeys := fmempty\<rparr>))) \<noteq> []"
    if "fst (WriteSSTable env ?kv1) = None"
    using that by (simp add: WriteSSTable_ok)
  with assms(2) live
  have "Set env key value kv = ?kv1 \<or> Set env key value kv = snd (WriteSSTable env ?kv1)"
    by (auto simp add: Set_cases split: if_splits)
  then have "fmlookup (data (Set env key value kv)) key = Some value"
    and "DeletedKeys (Set env key value kv) = DeletedKeys kv"
    by auto
  with live show ?thesis
    by (simp add: Get_def data_lookup_def deleted_def)
qed

theorem put_then_get_before_any_flush_witness:
  "reachable fresh_store \<and> sstables (Set good_io ''a'' (Slice ''1'') fresh_store) = [] \<and>
   Get good_io ''a'' (Set good_io ''a'' (Slice ''1'') fresh_store) = (Slice ''1'', True)"
proof -
  have e: "sstables (Set good_io ''a'' (Slice ''1'') fresh_store) = []"
    by (simp add: Set_cases deleted_def fresh_store_def fcard_finsert_if fcard_fempty)
  from reachable_fresh_store e put_then_get_before_any_flush [OF reachable_fresh_store e]
  show ?thesis by simp
qed

text \<open>
  Claim C3.  \<^verbatim>\<open>Set\<close> on a tombstoned key sets the flag of the key to \<^verbatim>\<open>false\<close> and changes
  nothing else: not the live mapping, not the log, not the tables, not another flag.
\<close>

theorem Set_on_tombstoned_key:
  assumes "deleted kv key"
  shows "fmlookup (DeletedKeys (Set env key value kv)) key = Some False \<and>
         (\<forall>k. k \<noteq> key \<longrightarrow> fmlookup (DeletedKeys (Set env key value kv)) k = fmlookup (DeletedKeys kv) k) \<and>
         data (Set env key value kv) = data kv \<and>
         logs (Set env key value kv) = logs kv \<and>
         sstables (Set env key value kv) = sstables kv \<and>
         wal_name (Set env key value kv) = wal_name kv \<and>
         wal_closed (Set env key value kv) = wal_closed kv \<and>
         smallestKeyLength (Set env key value kv) = smallestKeyLength kv \<and>
         largestKeyLength (Set env key value kv) = largestKeyLength kv"
  using assms by (simp add: Set_def)

theorem Set_on_tombstoned_key_witness:
  "deleted tombstoned_store ''a'' \<and>
   fmlookup (DeletedKeys (Set good_io ''a'' (Slice ''x'') tombstoned_store)) ''a'' = Some False \<and>
   fmlookup (DeletedKeys (Set good_io ''a'' (Slice ''x'') tombstoned_store)) ''b'' =
     fmlookup (DeletedKeys tombstoned_store) ''b'' \<and>
   data (Set good_io ''a'' (Slice ''x'') tombstoned_store) = fmempty \<and>
   logs (Set good_io ''a'' (Slice ''x'') tombstoned_store) = logs tombstoned_store \<and>
   sstables (Set good_io ''a'' (Slice ''x'') tombstoned_store) = sstables tombstoned_store"
proof -
  have d: "deleted tombstoned_store ''a''"
    by (simp add: deleted_def tombstoned_store_fields)
  have n: "''b'' \<noteq> ''a''" by simp
  from Set_on_tombstoned_key [OF d, of good_io "Slice ''x''"] d n show ?thesis
    by (simp add: tombstoned_store_fields)
qed

text \<open>
  Claim C4.  From an empty memtable without tombstones, with a usable log \<open>wal.log\<close> and
  system calls that succeed, ten distinct keys cause exactly one flush, at the tenth.  No
  table is written before.  At the tenth key one table is written: the bytes that
  \<^verbatim>\<open>WriteSSTable\<close> makes of the memtable of the ten pairs, with the ten keys in ascending
  order, each entry with marker 0, its key and its value; read back by \<^verbatim>\<open>SearchSSTFile\<close>,
  the table yields the value of each of the ten keys (the sizes fitting).  Afterwards the
  live mapping and the tombstones are empty and the log is empty.  Whether a \<^verbatim>\<open>Set\<close> of a
  key that is not tombstoned writes a table depends on the number of live entries only.
\<close>

theorem flush_at_ten_distinct_keys:
  assumes empty: "data kv = fmempty" "DeletedKeys kv = fmempty"
    and keys: "distinct (map fst kvs)" "length kvs = 10"
    and ok: "wal_write_ok env" "create_ok env" "write_limit env = None"
            "close_ok env" "truncate_ok env" "reopen_ok env"
    and wal: "wal_name kv = ''wal.log''" "\<not> wal_closed kv"
  shows "(\<forall>n < 10. sstables (puts env (take n kvs) kv) = sstables kv) \<and>
         sstables (puts env kvs kv) = concat (sst_writes (stores env kvs kv)) # sstables kv \<and>
         flush_keys (stores env kvs kv) = sort (map fst kvs) \<and>
         (\<forall>key value. (key, value) \<in> set kvs \<longrightarrow>
            entry_writes (stores env kvs kv) key =
              [le16 0, le32 (uint32 (int (length key))), le32 (uint32 (int (len value))),
               key, bytes_of value] \<and>
            (\<forall>env'. open_ok env' \<and> sizes_fit (stores env kvs kv) \<longrightarrow>
               SearchSSTFile env' key (concat (sst_writes (stores env kvs kv))) =
                 (Slice (bytes_of value), True))) \<and>
         data (puts env kvs kv) = fmempty \<and>
         DeletedKeys (puts env kvs kv) = fmempty \<and>
         wal_contents (puts env kvs kv) = [] \<and>
         (\<forall>kv' key value. \<not> deleted kv' key \<longrightarrow>
            (sstables (Set env key value kv') \<noteq> sstables kv') =
              (10 \<le> fcard (fmdom (fmupd key value (data kv')))))"
proof -
  have live: "\<not> deleted kv k" for k
    using empty(2) by (simp add: deleted_def)
  have below: "puts env (take n kvs) kv = stores env (take n kvs) kv" if "n < 10" for n
    using that live empty(1) keys(2) by (intro puts_below_threshold) (simp_all add: fcard_fempty)
  have first: "\<forall>n < 10. sstables (puts env (take n kvs) kv) = sstables kv"
    by (simp add: below)
  have all: "\<forall>k \<in> fst ` set kvs. \<not> deleted kv k"
    using live by simp
  note result = puts_ten [OF empty(1) all keys ok wal]
  have second: "sstables (puts env kvs kv) = concat (sst_writes (stores env kvs kv)) # sstables kv"
    by (simp add: result)
  have sorted_keys: "flush_keys (stores env kvs kv) = sort (map fst kvs)"
    using empty keys(1) by (rule flush_keys_stores)
  have entry: "entry_writes (stores env kvs kv) k =
        [le16 0, le32 (uint32 (int (length k))), le32 (uint32 (int (len v))), k, bytes_of v] \<and>
      (\<forall>env'. open_ok env' \<and> sizes_fit (stores env kvs kv) \<longrightarrow>
         SearchSSTFile env' k (concat (sst_writes (stores env kvs kv))) = (Slice (bytes_of v), True))"
    if member: "(k, v) \<in> set kvs" for k v
  proof -
    from member have "k \<in> set (sort (map fst kvs))"
      by force
    then have listed: "k \<in> set (flush_keys (stores env kvs kv))"
      by (simp only: sorted_keys)
    have "SearchSSTFile env' k (concat (sst_writes (stores env kvs kv))) = (Slice (bytes_of v), True)"
      if "open_ok env'" and "sizes_fit (stores env kvs kv)" for env'
      using SearchSSTFile_written [OF that, of k] listed
        entry_writes_stores(2) [OF empty(2) keys(1) member, of env]
      by simp
    with entry_writes_stores(1) [OF empty(2) keys(1) member, of env] show ?thesis
      by blast
  qed
  have third: "data (puts env kvs kv) = fmempty" "DeletedKeys (puts env kvs kv) = fmempty"
    "wal_contents (puts env kvs kv) = []"
    by (simp_all add: result wal_contents_def)
  have fourth: "(sstables (Set env k v kv') \<noteq> sstables kv') =
      (10 \<le> fcard (fmdom (fmupd k v (data kv'))))" if "\<not> deleted kv' k" for kv' k v
    using ok(2) that by (rule Set_flushes_iff)
  from first second sorted_keys entry third fourth show ?thesis
    by blast
qed

theorem flush_at_ten_distinct_keys_witness:
  "data fresh_store = fmempty \<and> DeletedKeys fresh_store = fmempty \<and>
   distinct (map fst ten_pairs) \<and> length ten_pairs = 10 \<and>
   wal_write_ok good_io \<and> create_ok good_io \<and> write_limit good_io = None \<and>
   close_ok good_io \<and> truncate_ok good_io \<and> reopen_ok good_io \<and>
   wal_name fresh_store = ''wal.log'' \<and> \<not> wal_closed fresh_store \<and>
   sstables (puts good_io (take 9 ten_pairs) fresh_store) = [] \<and>
   sstables (puts good_io ten_pairs fresh_store) = [concat (sst_writes first_memtable)] \<and>
   flush_keys first_memtable =
     [''a'', ''b'', ''c'', ''d'', ''e'', ''f'', ''g'', ''h'', ''i'', ''j''] \<and>
   (''j'', Slice ''10'') \<in> set ten_pairs \<and>
   entry_writes first_memtable ''j'' = [le16 0, le32 1, le32 2, ''j'', ''10''] \<and>
   open_ok good_io \<and> sizes_fit first_memtable \<and>
   SearchSSTFile good_io ''j'' (concat (sst_writes first_memtable)) = (Slice ''10'', True) \<and>
   data (puts good_io ten_pairs fresh_store) = fmempty \<and>
   DeletedKeys (puts good_io ten_pairs fresh_store) = fmempty \<and>
   wal_contents (puts good_io ten_pairs fresh_store) = [] \<and>
   \<not> deleted fresh_store ''a'' \<and>
   sstables (Set good_io ''a'' (Slice ''1'') fresh_store) = sstables fresh_store"
proof -
  have h: "data fresh_store = fmempty" "DeletedKeys fresh_store = fmempty"
    "distinct (map fst ten_pairs)" "length ten_pairs = 10"
    "wal_write_ok good_io" "create_ok good_io" "write_limit good_io = None"
    "close_ok good_io" "truncate_ok good_io" "reopen_ok good_io"
    "wal_name fresh_store = ''wal.log''" "\<not> wal_closed fresh_store"
    by (simp_all add: fresh_store_def ten_pairs_def good_io_def)
  have t: "sstables fresh_store = []" and l: "\<not> deleted fresh_store ''a''"
    and c: "\<not> 10 \<le> fcard (fmdom (fmupd ''a'' (Slice ''1'') (data fresh_store)))"
    by (simp_all add: fresh_store_def deleted_def fcard_finsert_if fcard_fempty)
  have m: "(''j'', Slice ''10'') \<in> set ten_pairs"
    and s: "sort (map fst ten_pairs) = [''a'', ''b'', ''c'', ''d'', ''e'', ''f'', ''g'', ''h'', ''i'', ''j'']"
    by (simp_all add: ten_pairs_def)
  have u: "uint32 (int (length ''j'')) = 1" "uint32 (int (len (Slice ''10''))) = 2"
    by (simp_all add: uint32_def)
  note f = sizes_fit_first_memtable
  have o: "open_ok good_io" by simp
  note run = flush_at_ten_distinct_keys [OF h, folded first_memtable_def]
  from run have "\<forall>n < 10. sstables (puts good_io (take n ten_pairs) fresh_store) = sstables fresh_store"
    by (rule conjunct1)
  then have nine: "sstables (puts good_io (take 9 ten_pairs) fresh_store) = sstables fresh_store"
    by simp
  from run have table: "sstables (puts good_io ten_pairs fresh_store) =
      concat (sst_writes first_memtable) # sstables fresh_store"
    and keys: "flush_keys first_memtable = sort (map fst ten_pairs)"
    and rest: "data (puts good_io ten_pairs fresh_store) = fmempty"
      "DeletedKeys (puts good_io ten_pairs fresh_store) = fmempty"
      "wal_contents (puts good_io ten_pairs fresh_store) = []"
    by blast+
  from run m have "entry_writes first_memtable ''j'' =
        [le16 0, le32 (uint32 (int (length ''j''))), le32 (uint32 (int (len (Slice ''10'')))),
         ''j'', bytes_of (Slice ''10'')] \<and>
      (\<forall>env'. open_ok env' \<and> sizes_fit first_memtable \<longrightarrow>
         SearchSSTFile env' ''j'' (concat (sst_writes first_memtable)) =
           (Slice (bytes_of (Slice ''10'')), True))"
    by blast
  with o f have written: "entry_writes first_memtable ''j'' =
        [le16 0, le32 (uint32 (int (length ''j''))), le32 (uint32 (int (len (Slice ''10'')))),
         ''j'', bytes_of (Slice ''10'')]"
    and read: "SearchSSTFile good_io ''j'' (concat (sst_writes first_memtable)) =
        (Slice (bytes_of (Slice ''10'')), True)"
    by blast+
  from written have entry: "entry_writes first_memtable ''j'' = [le16 0, le32 1, le32 2, ''j'', ''10'']"
    unfolding u by simp
  from run l
  have "(sstables (Set good_io ''a'' (Slice ''1'') fresh_store) \<noteq> sstables fresh_store) =
          (10 \<le> fcard (fmdom (fmupd ''a'' (Slice ''1'') (data fresh_store))))"
    by blast
  with c have one: "sstables (Set good_io ''a'' (Slice ''1'') fresh_store) = sstables fresh_store"
    by simp
  from h t l m o f nine table keys s rest entry read one show ?thesis
    by simp
qed

text \<open>
  Claim C5.  The specification: a table holds the keys of the live mapping and of the
  tombstone map, in ascending order, each key once.  \<^verbatim>\<open>WriteSSTable\<close> appends the keys of
  the two maps and sorts them, so a key in both maps is written twice.  In the run above
  \<open>a\<close> is tombstoned, put again (which clears the flag and keeps the key in the tombstone
  map, "so it won't be flushed" in the words of the comment), and put once more with nine
  other keys: the table of that flush holds eleven entries for ten keys, \<open>a\<close> twice.
\<close>

theorem key_in_both_maps_is_written_twice:
  "sstables (puts good_io ten_again (Set good_io ''a'' (Slice ''x'')
       (snd (Delete good_io ''a'' (puts good_io ten_pairs fresh_store))))) =
     [concat (sst_writes third_memtable), concat (sst_writes first_memtable)] \<and>
   flush_keys third_memtable =
     [''a'', ''a'', ''k'', ''l'', ''m'', ''n'', ''o'', ''p'', ''q'', ''r'', ''s''] \<and>
   \<not> distinct (flush_keys third_memtable) \<and>
   take 14 (sst_writes third_memtable) =
     [''SSTB'', le32 11, le32 1, le32 1,
      le16 0, le32 1, le32 1, ''a'', ''y'',
      le16 0, le32 1, le32 1, ''a'', ''y'']"
proof -
  have run: "puts good_io ten_again (Set good_io ''a'' (Slice ''x'')
       (snd (Delete good_io ''a'' (puts good_io ten_pairs fresh_store)))) =
      puts good_io ten_again revived_store"
    by (simp add: revived_store_def tombstoned_store_def flushed_store_def)
  have writes: "take 14 (sst_writes third_memtable) =
     [''SSTB'', le32 11, le32 1, le32 1,
      le16 0, le32 1, le32 1, ''a'', ''y'',
      le16 0, le32 1, le32 1, ''a'', ''y'']"
    by (simp add: sst_writes_def flush_keys_third_memtable entry_writes_def Let_def
        third_memtable_fields ten_again_def data_lookup_def deleted_def uint32_def)
  show ?thesis
    unfolding run by (simp add: third_flush_eq flush_keys_third_memtable writes)
qed

text \<open>
  Claim C6.  The specification: every change of the live mapping or of the tombstones is
  preceded by a record in the log.  \<^verbatim>\<open>Set\<close> on a tombstoned key changes the tombstones and
  writes no record: in the run above, the log holds the record of the \<open>Delete\<close> before and
  after.
\<close>

theorem tombstone_cleared_without_log_record:
  "deleted (snd (Delete good_io ''a'' (puts good_io ten_pairs fresh_store))) ''a'' \<and>
   \<not> deleted (Set good_io ''a'' (Slice ''x'') (snd (Delete good_io ''a'' (puts good_io ten_pairs fresh_store)))) ''a'' \<and>
   DeletedKeys (Set good_io ''a'' (Slice ''x'') (snd (Delete good_io ''a'' (puts good_io ten_pairs fresh_store))))
     \<noteq> DeletedKeys (snd (Delete good_io ''a'' (puts good_io ten_pairs fresh_store))) \<and>
   logs (Set good_io ''a'' (Slice ''x'') (snd (Delete good_io ''a'' (puts good_io ten_pairs fresh_store))))
     = logs (snd (Delete good_io ''a'' (puts good_io ten_pairs fresh_store))) \<and>
   wal_contents (Set good_io ''a'' (Slice ''x'') (snd (Delete good_io ''a'' (puts good_io ten_pairs fresh_store))))
     = [logEntry ''delete'' ''a'' (Slice ''1'')]"
proof -
  have run: "snd (Delete good_io ''a'' (puts good_io ten_pairs fresh_store)) = tombstoned_store"
    by (simp add: tombstoned_store_def flushed_store_def)
  have "fmlookup (fmupd ''a'' False (fmupd ''a'' True fmempty)) ''a'' \<noteq>
        fmlookup (fmupd ''a'' True (fmempty :: (string, bool) fmap)) ''a''"
    by simp
  then have "fmupd ''a'' False (fmupd ''a'' True fmempty) \<noteq> fmupd ''a'' True (fmempty :: (string, bool) fmap)"
    by metis
  then show ?thesis
    unfolding run revived_store_def [symmetric]
    by (simp add: revived_store_eq deleted_def tombstoned_store_fields)
qed

text \<open>
  Claim C7.  When the write of the table fails during the flush that a \<^verbatim>\<open>Set\<close> attempts,
  the live mapping, the tombstones and the log are what they were before the attempt,
  that is after the entry was logged and stored: nothing is cleared or truncated.
  \<^verbatim>\<open>WriteSSTable\<close> itself never touches them.
\<close>

theorem failed_flush_keeps_memtable_and_log:
  assumes "\<not> deleted kv key"
    and "10 \<le> fcard (fmdom (data (store_entry env key value kv)))"
    and "fst (WriteSSTable env (store_entry env key value kv)) \<noteq> None"
  shows "data (Set env key value kv) = data (store_entry env key value kv) \<and>
         DeletedKeys (Set env key value kv) = DeletedKeys (store_entry env key value kv) \<and>
         logs (Set env key value kv) = logs (store_entry env key value kv) \<and>
         wal_name (Set env key value kv) = wal_name (store_entry env key value kv) \<and>
         wal_closed (Set env key value kv) = wal_closed (store_entry env key value kv) \<and>
         data (snd (WriteSSTable env kv)) = data kv \<and>
         DeletedKeys (snd (WriteSSTable env kv)) = DeletedKeys kv \<and>
         logs (snd (WriteSSTable env kv)) = logs kv"
  using assms by (simp add: Set_cases)

theorem failed_flush_keeps_memtable_and_log_witness:
  "\<not> deleted nine_stored ''j'' \<and>
   10 \<le> fcard (fmdom (data (store_entry failing_io ''j'' (Slice ''10'') nine_stored))) \<and>
   fst (WriteSSTable failing_io (store_entry failing_io ''j'' (Slice ''10'') nine_stored)) = Some WriteError \<and>
   fmlookup (data (Set failing_io ''j'' (Slice ''10'') nine_stored)) ''a'' = Some (Slice ''1'') \<and>
   fmlookup (data (Set failing_io ''j'' (Slice ''10'') nine_stored)) ''j'' = Some (Slice ''10'') \<and>
   DeletedKeys (Set failing_io ''j'' (Slice ''10'') nine_stored) = fmempty \<and>
   logs (Set failing_io ''j'' (Slice ''10'') nine_stored) =
     logs (store_entry failing_io ''j'' (Slice ''10'') nine_stored) \<and>
   length (wal_contents (Set failing_io ''j'' (Slice ''10'') nine_stored)) = 10"
proof -
  have h: "\<not> deleted nine_stored ''j''"
    "10 \<le> fcard (fmdom (data (store_entry failing_io ''j'' (Slice ''10'') nine_stored)))"
    by (simp_all add: deleted_def nine_stored_fields ten_pairs_def fcard_finsert_if fcard_fempty)
  have w: "fst (WriteSSTable failing_io (store_entry failing_io ''j'' (Slice ''10'') nine_stored)) = Some WriteError"
    by (simp add: WriteSSTable_def Let_def failing_io_def good_io_def sst_writes_def)
  then have e: "fst (WriteSSTable failing_io (store_entry failing_io ''j'' (Slice ''10'') nine_stored)) \<noteq> None"
    by simp
  have l: "length (wal_contents (store_entry failing_io ''j'' (Slice ''10'') nine_stored)) = 10"
    by (simp add: nine_stored_def stores_def store_entry_def writeToWAL_def wal_contents_def Let_def
        ten_pairs_def fresh_store_def failing_io_def good_io_def)
  have c: "wal_contents (Set failing_io ''j'' (Slice ''10'') nine_stored) =
           wal_contents (store_entry failing_io ''j'' (Slice ''10'') nine_stored)"
    using failed_flush_keeps_memtable_and_log [OF h e] by (simp add: wal_contents_def)
  from failed_flush_keeps_memtable_and_log [OF h e] h w l c show ?thesis
    by (simp add: nine_stored_fields ten_pairs_def)
qed

text \<open>
  Claim C8.  Recovery of a log of records is the raw replay of the specification: \<open>set\<close>
  inserts, \<open>delete\<close> removes, any other operation is skipped, in file order; a log that
  ends in an undecodable record is replayed up to that record.  Whatever the log holds, recovery changes neither the tombstones nor the tables nor the log, so it
  never flushes, however large the live mapping becomes.
\<close>

theorem recovery_is_raw_replay:
  "RecoverFromWAL True (map decoded_record records) kv =
     (None, kv\<lparr>data := raw_replay records (data kv)\<rparr>) \<and>
   RecoverFromWAL True (map decoded_record records @ Malformed # rest) kv =
     (Some DecodeError, kv\<lparr>data := raw_replay records (data kv)\<rparr>) \<and>
   DeletedKeys (snd (RecoverFromWAL opened stream kv)) = DeletedKeys kv \<and>
   sstables (snd (RecoverFromWAL opened stream kv)) = sstables kv \<and>
   logs (snd (RecoverFromWAL opened stream kv)) = logs kv"
  using replay_fields [of stream kv]
  by (simp add: RecoverFromWAL_def replay_decoded_records replay_decoded_records_torn)

text \<open>
  Claim C9.  \<^verbatim>\<open>Delete\<close> of a key that is not in the live mapping, not tombstoned and not
  found in any table returns \<^verbatim>\<open>(nil, false)\<close> and leaves the whole state as it was.
\<close>

theorem Delete_of_unknown_key:
  assumes "fmlookup (data kv) key = None"
    and "\<not> deleted kv key"
    and "\<forall>file \<in> set (sstables kv). snd (SearchSSTFile env key file) = False"
  shows "Delete env key kv = ((nil, False), kv)"
proof -
  from assms(3) have "SearchSSTFiles env key kv = (nil, False)"
    unfolding SearchSSTFiles_def by (rule search_files_not_found)
  with assms(1,2) have "Get env key kv = (nil, False)"
    by (simp add: Get_def data_lookup_def)
  with assms(1) show ?thesis
    by (simp add: Delete_def)
qed

theorem Delete_of_unknown_key_witness:
  "fmlookup (data flushed_store) ''zz'' = None \<and> \<not> deleted flushed_store ''zz'' \<and>
   sstables flushed_store = [concat (sst_writes first_memtable)] \<and>
   snd (SearchSSTFile good_io ''zz'' (concat (sst_writes first_memtable))) = False \<and>
   Delete good_io ''zz'' flushed_store = ((nil, False), flushed_store)"
proof -
  have h: "fmlookup (data flushed_store) ''zz'' = None" "\<not> deleted flushed_store ''zz''"
    "\<forall>file \<in> set (sstables flushed_store). snd (SearchSSTFile good_io ''zz'' file) = False"
    by (simp_all add: flushed_store_eq deleted_def first_table_miss)
  have t: "sstables flushed_store = [concat (sst_writes first_memtable)]"
    "snd (SearchSSTFile good_io ''zz'' (concat (sst_writes first_memtable))) = False"
    by (simp_all add: flushed_store_eq first_table_miss)
  from Delete_of_unknown_key [OF h] h(1,2) t show ?thesis
    by simp
qed



end
